theory Spec2Isabelle
  imports Main "HOL-Library.Stream"
begin

section \<open>The GMP primitives used by the program\<close>

text \<open>
  The program (\<^verbatim>\<open>src/main.cpp\<close> and its sibling \<^verbatim>\<open>src/unnamed/part_000\<close>) computes with
  GMP's unbounded integers \<^verbatim>\<open>mpz_t\<close>, modelled as \<^typ>\<open>int\<close>. \<^verbatim>\<open>mpz_add\<close>, \<^verbatim>\<open>mpz_sub\<close>,
  \<^verbatim>\<open>mpz_mul\<close> and \<^verbatim>\<open>mpz_pow_ui\<close> are \<open>+\<close>, \<open>-\<close>, \<open>*\<close> and \<open>^\<close> (with \<open>0 ^ 0 = 1\<close>, as in GMP).
  The library functions below are not part of the repository; they are modelled from the GMP
  manual.

  A \<^verbatim>\<open>gmp_randstate_t\<close> is modelled by the stream of raw natural numbers the generator is
  going to produce; each draw consumes the head of the stream.
\<close>

type_synonym gmp_randstate = "nat stream"

definition mpz_urandomb :: "gmp_randstate \<Rightarrow> nat \<Rightarrow> int \<times> gmp_randstate" where
  \<comment> \<open>a random integer in the range \<open>0\<close> to \<open>2 ^ n - 1\<close>, inclusive\<close>
  "mpz_urandomb st n = (int (shd st) mod 2 ^ n, stl st)"

definition mpz_urandomm :: "gmp_randstate \<Rightarrow> int \<Rightarrow> int \<times> gmp_randstate" where
  \<comment> \<open>a random integer in the range \<open>0\<close> to \<open>n - 1\<close>, inclusive (\<open>n\<close> positive)\<close>
  "mpz_urandomm st n = (int (shd st) mod n, stl st)"

definition mpz_setbit :: "int \<Rightarrow> nat \<Rightarrow> int" where
  "mpz_setbit rop bit_index = set_bit bit_index rop"

definition mpz_mod :: "int \<Rightarrow> int \<Rightarrow> int" where
  \<comment> \<open>the sign of the divisor is ignored; the result is never negative\<close>
  "mpz_mod n d = n mod \<bar>d\<bar>"

definition is_prime :: "int \<Rightarrow> bool" where
  "is_prime p \<longleftrightarrow> 1 < p \<and> (\<forall>d \<in> set [2..p - 1]. \<not> d dvd p)"

definition mpz_invert :: "(int \<Rightarrow> int \<Rightarrow> int) \<Rightarrow> int \<Rightarrow> int \<Rightarrow> int \<times> int" where
  \<comment> \<open>\<^verbatim>\<open>int mpz_invert(rop, op1, op2)\<close>: the pair is (return value, \<open>rop\<close>). If the inverse of
      \<open>op1\<close> modulo \<open>op2\<close> exists, the return value is non-zero and \<open>0 \<le> rop < \<bar>op2\<bar>\<close>. If it
      does not exist the return value is zero and the manual leaves \<open>rop\<close> undefined: that value
      is the parameter \<open>undef\<close> (GMP 6 leaves \<open>rop\<close> unchanged; the program always passes \<open>op1\<close>
      itself as \<open>rop\<close>, which makes \<open>undef = (\<lambda>op1 op2. op1)\<close> there).\<close>
  "mpz_invert undef op1 op2 =
     (case find (\<lambda>r. (op1 * r) mod op2 = 1 mod op2) [0..\<bar>op2\<bar> - 1] of
        Some r \<Rightarrow> (1, r)
      | None \<Rightarrow> (0, undef op1 op2))"

definition gmp6_undef :: "int \<Rightarrow> int \<Rightarrow> int" where
  "gmp6_undef op1 op2 = op1"

function nextprime_search :: "int \<Rightarrow> int" where
  \<comment> \<open>the first prime at or above \<open>m\<close>; its termination is Euclid's theorem, proved below\<close>
  "nextprime_search m = (if is_prime m then m else nextprime_search (m + 1))"
  by pat_completeness auto

definition mpz_nextprime :: "int \<Rightarrow> int" where
  \<comment> \<open>the next prime greater than \<open>op\<close>\<close>
  "mpz_nextprime op = nextprime_search (op + 1)"

section \<open>The program\<close>

text \<open>
  Arrays (\<^verbatim>\<open>mpz_t*\<close>, \<^verbatim>\<open>std::vector<mpz_t>\<close>) are lists, written in place by \<open>xs[i := v]\<close>. The
  loop counters and bounds are C \<^verbatim>\<open>int\<close>s that only ever count upwards from \<open>0\<close>; they are
  modelled as \<^typ>\<open>nat\<close>, and a loop \<^verbatim>\<open>for (int i = 0; i < k; i++)\<close> is a \<^const>\<open>fold\<close> over
  \<open>[0..<k]\<close>. Reading or writing an array beyond its end is undefined behaviour in C++; the
  theorems below are stated for arrays that hold at least the \<open>k\<close> elements the loops touch,
  and for \<open>k \<ge> 1\<close> where the source indexes with \<open>k - 1\<close>.
\<close>

definition generate_prime :: "nat \<Rightarrow> gmp_randstate \<Rightarrow> int \<times> gmp_randstate" where
  "generate_prime bit_strength st =
     (let (num, st) = mpz_urandomb st bit_strength;
          num = mpz_setbit num 0;
          num = mpz_nextprime num
      in (num, st))"

definition generate_secret :: "int \<Rightarrow> gmp_randstate \<Rightarrow> int \<times> gmp_randstate" where
  "generate_secret prime st = mpz_urandomm st prime"

definition generate_coefficients ::
    "int list \<Rightarrow> int \<Rightarrow> nat \<Rightarrow> int \<Rightarrow> gmp_randstate \<Rightarrow> int list \<times> gmp_randstate" where
  "generate_coefficients coefficients prime change secret st =
     (let (coefficients, st) =
            fold (\<lambda>i (coefficients, st).
                    let (r, st) = mpz_urandomm st prime in (coefficients[i := r], st))
                 [0..<change - 1] (coefficients, st)
      in (coefficients[change - 1 := secret], st))"

definition compute_shares :: "int \<Rightarrow> int list \<Rightarrow> nat \<Rightarrow> int" where
  \<comment> \<open>\<^verbatim>\<open>src/main.cpp\<close>: one participant; the result is the final \<open>y\<close>\<close>
  "compute_shares x coefficients change =
     fold (\<lambda>j y. let temp = x ^ j; temp = temp * coefficients ! j in y + temp) [0..<change] 0"

definition compute_shares_batch :: "int list \<Rightarrow> int list \<Rightarrow> int list \<Rightarrow> nat \<Rightarrow> int list" where
  \<comment> \<open>\<^verbatim>\<open>src/unnamed/part_000\<close>: the vectors \<open>x\<close> and \<open>y\<close>; the result is the final \<open>y\<close>. The
      source initialises \<^verbatim>\<open>temp\<close> inside the outer loop only and clears it after the loop, so a
      call with \<open>k = 0\<close> clears an uninitialised \<^verbatim>\<open>mpz_t\<close> (undefined behaviour): this
      definition stands for the calls with \<open>k \<ge> 1\<close>.\<close>
  "compute_shares_batch x y coefficients k =
     fold (\<lambda>i y.
             fold (\<lambda>j y. let temp = x ! i ^ j; temp = temp * coefficients ! j
                          in y[i := y ! i + temp])
                  [0..<k] (y[i := 0]))
          [0..<k] y"

definition compute_lagrange_coefficients ::
    "(int \<Rightarrow> int \<Rightarrow> int) \<Rightarrow> int list \<Rightarrow> int list \<Rightarrow> nat \<Rightarrow> int \<Rightarrow> int list" where
  \<comment> \<open>the result is the final \<open>alphas\<close>; the return value of \<^verbatim>\<open>mpz_invert\<close> is discarded\<close>
  "compute_lagrange_coefficients undef alphas x k prime =
     fold (\<lambda>i alphas.
             fold (\<lambda>j alphas.
                     if j \<noteq> i then
                       let temp = x ! j - x ! i;
                           temp = snd (mpz_invert undef temp prime)
                       in alphas[i := alphas ! i * temp]
                     else alphas)
                  [0..<k] (alphas[i := 1]))
          [0..<k] alphas"

definition reconstruct_secret :: "int list \<Rightarrow> int list \<Rightarrow> nat \<Rightarrow> int \<Rightarrow> int" where
  "reconstruct_secret alphas shares k p =
     (let reconstructedSecret =
            fold (\<lambda>i reconstructedSecret. let temp = alphas ! i * shares ! i
                                           in reconstructedSecret + temp)
                 [0..<k] 0
      in mpz_mod reconstructedSecret p)"


subsection \<open>The steps of \<^verbatim>\<open>main\<close>\<close>

definition main_shares :: "int list \<Rightarrow> int list \<Rightarrow> int list \<Rightarrow> nat \<Rightarrow> nat \<Rightarrow> int list" where
  \<comment> \<open>step 4 of \<^verbatim>\<open>src/main.cpp\<close>: \<^verbatim>\<open>for (i < n) compute_shares(x[i], y[i], a.data(), k)\<close>\<close>
  "main_shares x y a k n = fold (\<lambda>i y. y[i := compute_shares (x ! i) a k]) [0..<n] y"

definition reconstruct :: "(int \<Rightarrow> int \<Rightarrow> int) \<Rightarrow> int list \<Rightarrow> int list \<Rightarrow> nat \<Rightarrow> int \<Rightarrow> int" where
  \<comment> \<open>step 5: a fresh vector \<^verbatim>\<open>alphas(k)\<close>, then the two calls; the result is \<^verbatim>\<open>Sr\<close>\<close>
  "reconstruct undef x y k p =
     (let alphas = compute_lagrange_coefficients undef (replicate k 0) x k p
      in reconstruct_secret alphas y k p)"

definition select :: "nat list \<Rightarrow> int list \<Rightarrow> int list" where
  \<comment> \<open>the entries of an array at a caller-chosen list of positions: a chosen set of shares\<close>
  "select idx v = map (\<lambda>i. v ! i) idx"

datatype error = NonInvertibleElementError | DuplicateOrZeroIdentifierError

definition reconstruction_path ::
    "(int \<Rightarrow> int \<Rightarrow> int) \<Rightarrow> int list \<Rightarrow> int list \<Rightarrow> nat \<Rightarrow> int \<Rightarrow> error + int" where
  \<comment> \<open>The outcome of step 5 as a caller observes it. Both functions return \<^verbatim>\<open>void\<close>, contain no
      \<^verbatim>\<open>throw\<close>, no early \<^verbatim>\<open>return\<close> and no test of the status of \<^verbatim>\<open>mpz_invert\<close>: there is no
      \<open>Inl\<close> branch to translate.\<close>
  "reconstruction_path undef x y k p = Inr (reconstruct undef x y k p)"

section \<open>Weighted sums over a set of evaluation points\<close>

text \<open>
  The mathematics behind the reconstruction, for an arbitrary family of points \<open>x i\<close> indexed by
  a finite set \<open>I\<close> and an arbitrary inversion function \<open>iv\<close>.
\<close>

definition weight :: "(int \<Rightarrow> int) \<Rightarrow> (nat \<Rightarrow> int) \<Rightarrow> nat set \<Rightarrow> nat \<Rightarrow> int" where
  "weight iv x I i = (\<Prod>j\<in>I - {i}. iv (x j - x i))"

definition combine :: "(int \<Rightarrow> int) \<Rightarrow> (nat \<Rightarrow> int) \<Rightarrow> nat set \<Rightarrow> (nat \<Rightarrow> int) \<Rightarrow> int" where
  "combine iv x I G = (\<Sum>i\<in>I. weight iv x I i * G i)"

section \<open>The loops as sums and products\<close>

lemma fold_add_upt:
  "fold (\<lambda>j y. y + f j) [0..<n] (a::int) = a + (\<Sum>j<n. f j)"
  by (induction n) simp_all

lemma compute_shares_sum:
  "compute_shares x coefficients change = (\<Sum>j<change. x ^ j * coefficients ! j)"
  unfolding compute_shares_def Let_def by (simp add: fold_add_upt)

lemma reconstruct_secret_sum:
  "reconstruct_secret alphas shares k p = (\<Sum>i<k. alphas ! i * shares ! i) mod \<bar>p\<bar>"
  unfolding reconstruct_secret_def Let_def mpz_mod_def by (simp add: fold_add_upt)

lemma fold_mult_at:
  assumes "i < length al"
  shows "fold (\<lambda>j al. if j \<noteq> i then al[i := al ! i * g j] else al) [0..<n] al
           = al[i := al ! i * (\<Prod>j\<in>{..<n} - {i}. g j)]"
proof (induction n)
  case 0
  show ?case by simp
next
  case (Suc n)
  show ?case
  proof (cases "n = i")
    case True
    then have "{..<Suc n} - {i} = {..<n} - {i}" by auto
    with Suc True show ?thesis by simp
  next
    case False
    then have "{..<Suc n} - {i} = insert n ({..<n} - {i})" by auto
    with Suc False assms show ?thesis by (simp add: mult_ac)
  qed
qed

lemma fold_add_at:
  assumes "i < length y"
  shows "fold (\<lambda>j y. y[i := y ! i + g j]) [0..<n] y = y[i := y ! i + (\<Sum>j<n. g j)]"
  using assms by (induction n) (simp_all add: add_ac)

lemma fold_overwrite_upt:
  assumes "n \<le> length al" and "\<And>i al. i < length al \<Longrightarrow> F i al = al[i := h i]"
  shows "length (fold F [0..<n] al) = length al \<and>
         (\<forall>i<length al. fold F [0..<n] al ! i = (if i < n then h i else al ! i))"
  using assms(1)
proof (induction n)
  case 0
  show ?case by simp
next
  case (Suc n)
  then have ih: "length (fold F [0..<n] al) = length al"
      "\<forall>i<length al. fold F [0..<n] al ! i = (if i < n then h i else al ! i)"
    by simp_all
  have step: "fold F [0..<Suc n] al = (fold F [0..<n] al)[n := h n]"
    using Suc.prems ih(1) assms(2) by simp
  show ?case
    unfolding step using ih by (auto simp: nth_list_update less_Suc_eq)
qed

lemma lagrange_body:
  assumes "i < length al"
  shows "fold (\<lambda>j alphas.
                     if j \<noteq> i then
                       let temp = x ! j - x ! i;
                           temp = snd (mpz_invert undef temp prime)
                       in alphas[i := alphas ! i * temp]
                     else alphas)
                  [0..<k] (al[i := 1])
         = al[i := (\<Prod>j\<in>{..<k} - {i}. snd (mpz_invert undef (x ! j - x ! i) prime))]"
  unfolding Let_def
  using assms fold_mult_at [of i "al[i := 1]" "\<lambda>j. snd (mpz_invert undef (x ! j - x ! i) prime)" k]
  by simp

lemma compute_lagrange_coefficients_nth:
  assumes "k \<le> length alphas"
  shows "length (compute_lagrange_coefficients undef alphas x k prime) = length alphas"
    and "i < length alphas \<Longrightarrow> compute_lagrange_coefficients undef alphas x k prime ! i =
           (if i < k then \<Prod>j\<in>{..<k} - {i}. snd (mpz_invert undef (x ! j - x ! i) prime)
            else alphas ! i)"
  unfolding compute_lagrange_coefficients_def
  using fold_overwrite_upt [OF assms, where F = "\<lambda>i alphas.
             fold (\<lambda>j alphas.
                     if j \<noteq> i then
                       let temp = x ! j - x ! i;
                           temp = snd (mpz_invert undef temp prime)
                       in alphas[i := alphas ! i * temp]
                     else alphas)
                  [0..<k] (alphas[i := 1])" and h = "\<lambda>i. \<Prod>j\<in>{..<k} - {i}. snd (mpz_invert undef (x ! j - x ! i) prime)"]
    lagrange_body
  by simp_all

lemma batch_body:
  assumes "i < length y"
  shows "fold (\<lambda>j y. let temp = x ! i ^ j; temp = temp * coefficients ! j
                          in y[i := y ! i + temp])
                  [0..<k] (y[i := 0])
         = y[i := compute_shares (x ! i) coefficients k]"
  using assms fold_add_at [of i "y[i := 0]" "\<lambda>j. x ! i ^ j * coefficients ! j" k]
  by (simp add: Let_def compute_shares_sum)

lemma compute_shares_batch_nth:
  assumes "k \<le> length y"
  shows "length (compute_shares_batch x y coefficients k) = length y"
    and "i < length y \<Longrightarrow> compute_shares_batch x y coefficients k ! i =
           (if i < k then compute_shares (x ! i) coefficients k else y ! i)"
  unfolding compute_shares_batch_def
  using fold_overwrite_upt [OF assms, where F = "\<lambda>i y.
             fold (\<lambda>j y. let temp = x ! i ^ j; temp = temp * coefficients ! j
                          in y[i := y ! i + temp])
                  [0..<k] (y[i := 0])" and h = "\<lambda>i. compute_shares (x ! i) coefficients k"]
    batch_body
  by simp_all

section \<open>Primes and modular inverses\<close>

lemma is_prime_gt_1: "is_prime p \<Longrightarrow> 1 < p"
  by (simp add: is_prime_def)

lemma is_prime_divisor:
  assumes "is_prime p" and "d dvd p" and "0 < d"
  shows "d = 1 \<or> d = p"
proof (rule ccontr)
  assume neg: "\<not> (d = 1 \<or> d = p)"
  from assms have "d \<le> p" by (simp add: is_prime_def zdvd_imp_le)
  with neg assms(3) have "d \<in> set [2..p - 1]" by simp
  with assms(1,2) show False by (simp add: is_prime_def)
qed

lemma is_prime_gcd:
  assumes "is_prime p" and "\<not> p dvd a"
  shows "gcd a p = 1"
proof -
  have "gcd a p dvd p" by simp
  moreover have "0 < gcd a p" using assms(1) by (simp add: is_prime_def)
  ultimately have "gcd a p = 1 \<or> gcd a p = p"
    using is_prime_divisor [OF assms(1)] by blast
  moreover have "gcd a p \<noteq> p"
  proof
    assume "gcd a p = p"
    then have "p dvd a" by (metis gcd_dvd1)
    with assms(2) show False ..
  qed
  ultimately show ?thesis by simp
qed

lemma prime_inverse_exists:
  assumes "is_prime p" and "\<not> p dvd a"
  shows "\<exists>r. 0 \<le> r \<and> r < p \<and> (a * r) mod p = 1"
proof -
  from assms(1) have p: "1 < p" by (rule is_prime_gt_1)
  obtain u v where uv: "u * a + v * p = 1"
    using bezout_int [of a p] is_prime_gcd [OF assms] by auto
  have "(a * (u mod p)) mod p = (a * u) mod p"
    by (simp add: mod_mult_right_eq)
  also have "a * u = 1 - v * p" using uv by (simp add: algebra_simps)
  also have "(1 - v * p) mod p = 1 mod p"
    by (metis diff_zero mod_diff_right_eq mod_mult_self2_is_0)
  also have "1 mod p = 1" using p by simp
  finally have "(a * (u mod p)) mod p = 1" .
  moreover have "0 \<le> u mod p" "u mod p < p" using p by simp_all
  ultimately show ?thesis by blast
qed

lemma mpz_invert_prime:
  assumes "is_prime p" and "\<not> p dvd a"
  shows "fst (mpz_invert undef a p) = 1"
    and "0 \<le> snd (mpz_invert undef a p)"
    and "snd (mpz_invert undef a p) < p"
    and "(a * snd (mpz_invert undef a p)) mod p = 1"
proof -
  from assms(1) have p: "1 < p" by (rule is_prime_gt_1)
  obtain r where r: "0 \<le> r" "r < p" "(a * r) mod p = 1"
    using prime_inverse_exists [OF assms] by blast
  then have "r \<in> set [0..\<bar>p\<bar> - 1]" "(a * r) mod p = 1 mod p" using p by simp_all
  then have "find (\<lambda>r. (a * r) mod p = 1 mod p) [0..\<bar>p\<bar> - 1] \<noteq> None"
    unfolding find_None_iff by blast
  then obtain s where s: "find (\<lambda>r. (a * r) mod p = 1 mod p) [0..\<bar>p\<bar> - 1] = Some s"
    by blast
  then have "s \<in> set [0..\<bar>p\<bar> - 1]" "(a * s) mod p = 1 mod p"
    by (auto simp: find_Some_iff in_set_conv_nth)
  then have "0 \<le> s" "s < p" "(a * s) mod p = 1" using p by simp_all
  moreover have "mpz_invert undef a p = (1, s)" by (simp add: mpz_invert_def s)
  ultimately show "fst (mpz_invert undef a p) = 1"
    and "0 \<le> snd (mpz_invert undef a p)"
    and "snd (mpz_invert undef a p) < p"
    and "(a * snd (mpz_invert undef a p)) mod p = 1" by simp_all
qed

lemma mpz_invert_none:
  assumes "1 < p" and "p dvd a"
  shows "mpz_invert undef a p = (0, undef a p)"
proof -
  have "\<And>r. (a * r) mod p \<noteq> 1 mod p" using assms by simp
  then have "find (\<lambda>r. (a * r) mod p = 1 mod p) [0..\<bar>p\<bar> - 1] = None"
    unfolding find_None_iff by blast
  then show ?thesis by (simp add: mpz_invert_def)
qed

lemma mpz_invert_dvd:
  assumes "is_prime p" and "\<not> p dvd a"
  shows "p dvd snd (mpz_invert undef a p) * a - 1"
proof -
  have "(snd (mpz_invert undef a p) * a) mod p = 1 mod p"
    using mpz_invert_prime(4) [OF assms, of undef] is_prime_gt_1 [OF assms(1)]
    by (simp add: mult.commute)
  then show ?thesis by (simp add: mod_eq_dvd_iff)
qed


subsection \<open>There is always a next prime\<close>

lemma prime_divisor_exists:
  fixes m :: nat
  assumes "1 < m"
  shows "\<exists>q. is_prime (int q) \<and> q dvd m"
proof -
  define q where "q = (LEAST d. 1 < d \<and> d dvd m)"
  have "1 < m \<and> m dvd m" using assms by simp
  then have q: "1 < q \<and> q dvd m"
    unfolding q_def by (rule LeastI)
  have least: "\<And>d. 1 < d \<Longrightarrow> d dvd m \<Longrightarrow> q \<le> d"
    unfolding q_def by (rule Least_le) simp
  have "\<not> d dvd int q" if "d \<in> set [2..int q - 1]" for d
  proof
    assume "d dvd int q"
    then have "nat d dvd q" using that by (simp add: nat_dvd_iff)
    then have "nat d dvd m" using q by (blast intro: dvd_trans)
    moreover have "1 < nat d" "nat d < q" using that by auto
    ultimately show False using least [of "nat d"] by simp
  qed
  then have "is_prime (int q)" using q by (simp add: is_prime_def)
  with q show ?thesis by blast
qed

lemma prime_above:
  fixes n :: int
  shows "\<exists>q. n < q \<and> is_prime q"
proof -
  obtain q where q: "is_prime (int q)" "q dvd fact (nat n) + 1"
    using prime_divisor_exists [of "fact (nat n) + 1"]
    by (metis add_gr_0 fact_gt_zero less_add_same_cancel2 add.commute)
  have "\<not> q \<le> nat n"
  proof
    assume "q \<le> nat n"
    moreover have "1 \<le> q" using q(1) by (simp add: is_prime_def)
    ultimately have "q dvd fact (nat n)" by (simp add: dvd_fact)
    with q(2) have "q dvd 1" by (simp only: dvd_add_right_iff)
    with q(1) show False by (simp add: is_prime_def)
  qed
  then have "n < int q" by linarith
  with q(1) show ?thesis by blast
qed

lemma prime_distance:
  "\<exists>d::nat. is_prime (m + int d)"
proof -
  obtain q where "m < q" "is_prime q" using prime_above by blast
  then have "is_prime (m + int (nat (q - m)))" by simp
  then show ?thesis ..
qed

lemma prime_distance_decreases:
  assumes "\<not> is_prime m"
  shows "(LEAST d. is_prime (m + 1 + int d)) < (LEAST d. is_prime (m + int d))"
proof -
  define e where "e = (LEAST d. is_prime (m + int d))"
  have e: "is_prime (m + int e)"
    unfolding e_def using prime_distance [of m] by (rule exE) (rule LeastI)
  with assms have "e \<noteq> 0" by (metis add.right_neutral of_nat_0)
  then have "m + 1 + int (e - 1) = m + int e" by simp
  with e have "is_prime (m + 1 + int (e - 1))" by simp
  then have "(LEAST d. is_prime (m + 1 + int d)) \<le> e - 1" by (rule Least_le)
  with \<open>e \<noteq> 0\<close> show ?thesis unfolding e_def by simp
qed

termination nextprime_search
  by (relation "measure (\<lambda>m. LEAST d. is_prime (m + int d))")
     (simp_all add: prime_distance_decreases)

declare nextprime_search.simps [simp del]

lemma nextprime_search_prime: "is_prime (nextprime_search m)"
proof (induction m rule: nextprime_search.induct)
  case (1 m)
  then show ?case by (cases "is_prime m") (simp_all add: nextprime_search.simps [of m])
qed

lemma nextprime_search_ge: "m \<le> nextprime_search m"
proof (induction m rule: nextprime_search.induct)
  case (1 m)
  then show ?case by (cases "is_prime m") (simp_all add: nextprime_search.simps [of m])
qed

section \<open>What the weighted sum extracts from a polynomial\<close>

lemma weight_remove:
  assumes "finite I" and "a \<in> I" and "i \<noteq> a"
  shows "weight iv x I i = iv (x a - x i) * weight iv x (I - {a}) i"
proof -
  have "a \<in> I - {i}" using assms by simp
  moreover have "I - {i} - {a} = I - {a} - {i}" by auto
  ultimately show ?thesis
    unfolding weight_def using assms(1) by (simp add: prod.remove [of _ a])
qed

lemma combine_remove:
  assumes "finite I" and "a \<in> I"
    and inv: "\<And>i. i \<in> I \<Longrightarrow> i \<noteq> a \<Longrightarrow> (p::int) dvd iv (x a - x i) * (x a - x i) - 1"
  shows "p dvd combine iv x I (\<lambda>i. (x a - x i) * G i) - combine iv x (I - {a}) G"
proof -
  have "combine iv x I (\<lambda>i. (x a - x i) * G i)
          = (\<Sum>i\<in>I - {a}. weight iv x I i * ((x a - x i) * G i))"
    unfolding combine_def using assms(1,2) by (simp add: sum.remove [of _ a])
  also have "\<dots> = (\<Sum>i\<in>I - {a}. iv (x a - x i) * weight iv x (I - {a}) i * ((x a - x i) * G i))"
    by (rule sum.cong) (simp_all add: weight_remove [OF assms(1,2)])
  finally have "combine iv x I (\<lambda>i. (x a - x i) * G i) - combine iv x (I - {a}) G
          = (\<Sum>i\<in>I - {a}. (iv (x a - x i) * (x a - x i) - 1) * (weight iv x (I - {a}) i * G i))"
    unfolding combine_def by (simp add: sum_subtractf [symmetric] algebra_simps)
  moreover have "p dvd (\<Sum>i\<in>I - {a}. (iv (x a - x i) * (x a - x i) - 1) * (weight iv x (I - {a}) i * G i))"
    by (rule dvd_sum) (simp add: inv)
  ultimately show ?thesis by simp
qed

lemma combine_two_points:
  assumes "finite I" and "a \<in> I" and "b \<in> I"
    and inv: "\<And>i j. i \<in> I \<Longrightarrow> j \<in> I \<Longrightarrow> i \<noteq> j \<Longrightarrow> (p::int) dvd iv (x j - x i) * (x j - x i) - 1"
  shows "p dvd (x a - x b) * combine iv x I G - (combine iv x (I - {a}) G - combine iv x (I - {b}) G)"
proof -
  have split: "(x a - x b) * combine iv x I G
      = combine iv x I (\<lambda>i. (x a - x i) * G i) - combine iv x I (\<lambda>i. (x b - x i) * G i)"
    unfolding combine_def by (simp add: sum_subtractf [symmetric] sum_distrib_left algebra_simps)
  have "p dvd combine iv x I (\<lambda>i. (x a - x i) * G i) - combine iv x (I - {a}) G"
    using assms(1,2) inv [OF _ assms(2)] by (intro combine_remove) auto
  moreover have "p dvd combine iv x I (\<lambda>i. (x b - x i) * G i) - combine iv x (I - {b}) G"
    using assms(1,3) inv [OF _ assms(3)] by (intro combine_remove) auto
  ultimately have "p dvd (combine iv x I (\<lambda>i. (x a - x i) * G i) - combine iv x (I - {a}) G)
       - (combine iv x I (\<lambda>i. (x b - x i) * G i) - combine iv x (I - {b}) G)"
    by (rule dvd_diff)
  then show ?thesis unfolding split by (simp add: algebra_simps)
qed

lemma combine_power:
  fixes p :: int
  assumes cancel: "\<And>d c. \<not> p dvd d \<Longrightarrow> p dvd d * c \<Longrightarrow> p dvd c"
    and inv: "\<And>d. \<not> p dvd d \<Longrightarrow> p dvd iv d * d - 1"
  shows "finite I \<Longrightarrow> card I = Suc n \<Longrightarrow>
         (\<forall>i\<in>I. \<forall>j\<in>I. i \<noteq> j \<longrightarrow> \<not> p dvd x j - x i) \<Longrightarrow> m \<le> n \<Longrightarrow>
         p dvd combine iv x I (\<lambda>i. x i ^ m) - (if m = n then (- 1) ^ n else 0)"
proof (induction n arbitrary: I m)
  case 0
  from 0 have "card I = 1" by simp
  then obtain a where "I = {a}" by (rule card_1_singletonE)
  with 0 show ?case by (simp add: combine_def weight_def)
next
  case (Suc n)
  have fin: "finite I" and card: "card I = Suc (Suc n)"
    and sep: "\<And>i j. i \<in> I \<Longrightarrow> j \<in> I \<Longrightarrow> i \<noteq> j \<Longrightarrow> \<not> p dvd x j - x i"
    using Suc.prems by blast+
  have invI: "\<And>i j. i \<in> I \<Longrightarrow> j \<in> I \<Longrightarrow> i \<noteq> j \<Longrightarrow> p dvd iv (x j - x i) * (x j - x i) - 1"
    using sep inv by blast
  have "I \<noteq> {}" using card by auto
  then obtain a where a: "a \<in> I" by blast
  have "card (I - {a}) = Suc n" using fin a card by simp
  then have "card (I - {a}) \<noteq> 0" by simp
  then have "I - {a} \<noteq> {}" by (metis card.empty)
  then obtain b where "b \<in> I - {a}" by blast
  then have b: "b \<in> I" "b \<noteq> a" by simp_all
  let ?T = "\<lambda>m. combine iv x I (\<lambda>i. x i ^ m)"
  let ?c = "\<lambda>m. if m = n then (- 1) ^ n else (0::int)"
  have ih: "p dvd combine iv x (I - {e}) (\<lambda>i. x i ^ m) - ?c m" if "e \<in> I" "m \<le> n" for e m
  proof (rule Suc.IH)
    show "finite (I - {e})" using fin by simp
    show "card (I - {e}) = Suc n" using fin that(1) card by simp
    show "\<forall>i\<in>I - {e}. \<forall>j\<in>I - {e}. i \<noteq> j \<longrightarrow> \<not> p dvd x j - x i" using sep by simp
    show "m \<le> n" by (rule that(2))
  qed
  have T0: "p dvd ?T 0"
  proof -
    have 1: "p dvd (x a - x b) * ?T 0
                - (combine iv x (I - {a}) (\<lambda>i. x i ^ 0) - combine iv x (I - {b}) (\<lambda>i. x i ^ 0))"
      using fin a b(1) invI by (intro combine_two_points) auto
    have "p dvd (combine iv x (I - {a}) (\<lambda>i. x i ^ 0) - ?c 0)
                - (combine iv x (I - {b}) (\<lambda>i. x i ^ 0) - ?c 0)"
      by (intro dvd_diff ih a b) simp_all
    then have 2: "p dvd combine iv x (I - {a}) (\<lambda>i. x i ^ 0) - combine iv x (I - {b}) (\<lambda>i. x i ^ 0)"
      by simp
    have "p dvd (x a - x b) * ?T 0" using dvd_add [OF 1 2] by simp
    moreover have "\<not> p dvd x a - x b" using sep [OF b(1) a b(2)] .
    ultimately show ?thesis by (rule cancel [rotated])
  qed
  have step: "p dvd ?T (Suc m) - (x a * ?T m - combine iv x (I - {a}) (\<lambda>i. x i ^ m))" for m
  proof -
    define Ca where "Ca = combine iv x (I - {a}) (\<lambda>i. x i ^ m)"
    define L where "L = combine iv x I (\<lambda>i. (x a - x i) * x i ^ m)"
    define U where "U = ?T m"
    define V where "V = ?T (Suc m)"
    have "p dvd L - Ca"
      unfolding L_def Ca_def using fin a invI by (intro combine_remove) auto
    moreover have "L = x a * U - V"
      unfolding L_def U_def V_def combine_def
      by (simp add: sum_subtractf [symmetric] sum_distrib_left algebra_simps)
    ultimately have "p dvd - (V - (x a * U - Ca))"
      by (simp add: algebra_simps)
    then have "p dvd V - (x a * U - Ca)" by (simp only: dvd_minus_iff)
    then show ?thesis unfolding U_def V_def Ca_def .
  qed
  have "m \<le> Suc n \<Longrightarrow> p dvd ?T m - (if m = Suc n then (- 1) ^ Suc n else 0)" for m
  proof (induction m)
    case 0
    with T0 show ?case by simp
  next
    case (Suc m)
    then have m: "m \<le> n" and Tm: "p dvd ?T m" by simp_all
    have A: "p dvd combine iv x (I - {a}) (\<lambda>i. x i ^ m) - ?c m" by (rule ih [OF a m])
    have "p dvd (?T (Suc m) - (x a * ?T m - combine iv x (I - {a}) (\<lambda>i. x i ^ m)))
                + x a * ?T m - (combine iv x (I - {a}) (\<lambda>i. x i ^ m) - ?c m)"
      by (intro dvd_diff dvd_add step dvd_mult Tm A)
    moreover have "(?T (Suc m) - (x a * ?T m - combine iv x (I - {a}) (\<lambda>i. x i ^ m)))
                + x a * ?T m - (combine iv x (I - {a}) (\<lambda>i. x i ^ m) - ?c m)
                = ?T (Suc m) - (if Suc m = Suc n then (- 1) ^ Suc n else 0)"
      by simp
    ultimately show ?case by simp
  qed
  then show ?case using Suc.prems(4) by blast
qed

section \<open>From the weighted sum to the program\<close>

lemma is_prime_cancel:
  assumes "is_prime p" and "\<not> p dvd d" and "p dvd d * c"
  shows "p dvd c"
proof -
  have "coprime p d"
    using is_prime_gcd [OF assms(1,2)] by (simp add: coprime_iff_gcd_eq_1 gcd.commute)
  with assms(3) show ?thesis by (simp add: coprime_dvd_mult_right_iff)
qed

lemma alpha_is_weight:
  assumes "k \<le> length alphas" and "i < k"
  shows "compute_lagrange_coefficients undef alphas x k p ! i
           = weight (\<lambda>d. snd (mpz_invert undef d p)) (\<lambda>j. x ! j) {..<k} i"
  using assms by (simp add: compute_lagrange_coefficients_nth weight_def)

lemma combine_polynomial:
  "(\<Sum>i<k. weight iv x {..<k} i * (\<Sum>j<n. x i ^ j * a ! j))
     = (\<Sum>j<n. a ! j * combine iv x {..<k} (\<lambda>i. x i ^ j))"
proof -
  have "(\<Sum>i<k. weight iv x {..<k} i * (\<Sum>j<n. x i ^ j * a ! j))
          = (\<Sum>i<k. \<Sum>j<n. a ! j * (weight iv x {..<k} i * x i ^ j))"
    by (simp add: sum_distrib_left mult_ac)
  also have "\<dots> = (\<Sum>j<n. \<Sum>i<k. a ! j * (weight iv x {..<k} i * x i ^ j))"
    by (rule sum.swap)
  finally show ?thesis by (simp add: combine_def sum_distrib_left)
qed

lemma weighted_shares_leading:
  fixes x :: "nat \<Rightarrow> int"
  assumes "is_prime p" and "0 < k"
    and sep: "\<forall>i<k. \<forall>j<k. i \<noteq> j \<longrightarrow> \<not> p dvd x j - x i"
  shows "p dvd (\<Sum>i<k. weight (\<lambda>d. snd (mpz_invert undef d p)) x {..<k} i
                    * (\<Sum>j<k. x i ^ j * a ! j))
               - (- 1) ^ (k - 1) * a ! (k - 1)"
proof -
  let ?iv = "\<lambda>d. snd (mpz_invert undef d p)"
  let ?T = "\<lambda>j. combine ?iv x {..<k} (\<lambda>i. x i ^ j)"
  let ?c = "\<lambda>j. if j = k - 1 then (- 1) ^ (k - 1) else (0::int)"
  have T: "p dvd ?T j - ?c j" if "j < k" for j
  proof (rule combine_power [where p = p and iv = ?iv and I = "{..<k}" and n = "k - 1"])
    show "\<And>d c. \<not> p dvd d \<Longrightarrow> p dvd d * c \<Longrightarrow> p dvd c"
      using assms(1) by (rule is_prime_cancel)
    show "\<And>d. \<not> p dvd d \<Longrightarrow> p dvd snd (mpz_invert undef d p) * d - 1"
      using assms(1) by (rule mpz_invert_dvd)
    show "finite {..<k}" by simp
    show "card {..<k} = Suc (k - 1)" using assms(2) by simp
    show "\<forall>i\<in>{..<k}. \<forall>j\<in>{..<k}. i \<noteq> j \<longrightarrow> \<not> p dvd x j - x i"
      using sep by simp
    show "j \<le> k - 1" using that by simp
  qed
  have "p dvd (\<Sum>j<k. a ! j * (?T j - ?c j))"
  proof (rule dvd_sum)
    fix j assume "j \<in> {..<k}"
    then have "j < k" by simp
    then have "p dvd ?T j - ?c j" by (rule T)
    then show "p dvd a ! j * (?T j - ?c j)" by (rule dvd_mult)
  qed
  moreover have "(\<Sum>j<k. a ! j * (?T j - ?c j))
      = (\<Sum>j<k. a ! j * ?T j) - (\<Sum>j<k. a ! j * ?c j)"
    by (simp add: right_diff_distrib sum_subtractf)
  moreover have "(\<Sum>j<k. a ! j * ?c j) = (\<Sum>j<k. if j = k - 1 then (- 1) ^ (k - 1) * a ! j else 0)"
    by (rule sum.cong) simp_all
  moreover have "\<dots> = (- 1) ^ (k - 1) * a ! (k - 1)"
    using assms(2) by (simp add: sum.delta)
  ultimately show ?thesis by (simp only: combine_polynomial)
qed

lemma distinct_residues:
  assumes "distinct (map (\<lambda>v. v mod p) xs)" and "i < length xs" and "j < length xs" and "i \<noteq> j"
  shows "\<not> (p::int) dvd xs ! j - xs ! i"
proof -
  have "map (\<lambda>v. v mod p) xs ! j \<noteq> map (\<lambda>v. v mod p) xs ! i"
    using assms by (simp add: nth_eq_iff_index_eq del: nth_map)
  then show ?thesis using assms(2,3) by (simp add: mod_eq_dvd_iff)
qed

lemma reconstruct_sum:
  assumes "0 < p"
  shows "reconstruct undef x y k p
      = (\<Sum>i<k. compute_lagrange_coefficients undef (replicate k 0) x k p ! i * y ! i) mod p"
  using assms by (simp add: reconstruct_def reconstruct_secret_sum Let_def)

lemma weighted_sum_leading_coefficient:
  assumes "is_prime p" and "0 < k" and "length x = k" and "k \<le> length alphas"
    and "distinct (map (\<lambda>v. v mod p) x)"
  shows "(\<Sum>i<k. compute_lagrange_coefficients undef alphas x k p ! i
                    * compute_shares (x ! i) a k) mod p
           = ((- 1) ^ (k - 1) * a ! (k - 1)) mod p"
proof -
  let ?iv = "\<lambda>d. snd (mpz_invert undef d p)"
  have "(\<Sum>i<k. compute_lagrange_coefficients undef alphas x k p ! i * compute_shares (x ! i) a k)
      = (\<Sum>i<k. weight ?iv (\<lambda>j. x ! j) {..<k} i * (\<Sum>j<k. (x ! i) ^ j * a ! j))"
    using assms(4) by (intro sum.cong) (simp_all add: alpha_is_weight compute_shares_sum)
  moreover have "\<dots> mod p = ((- 1) ^ (k - 1) * a ! (k - 1)) mod p"
    unfolding mod_eq_dvd_iff
    using assms(1,2)
  proof (rule weighted_shares_leading)
    show "\<forall>i<k. \<forall>j<k. i \<noteq> j \<longrightarrow> \<not> p dvd x ! j - x ! i"
      using distinct_residues [OF assms(5)] assms(3) by simp
  qed
  ultimately show ?thesis by simp
qed

lemma reconstruct_leading_coefficient:
  assumes "is_prime p" and "0 < k" and "length x = k"
    and "distinct (map (\<lambda>v. v mod p) x)"
    and shares: "\<forall>i<k. y ! i = compute_shares (x ! i) a k"
  shows "reconstruct undef x y k p = ((- 1) ^ (k - 1) * a ! (k - 1)) mod p"
proof -
  have p: "0 < p" using is_prime_gt_1 [OF assms(1)] by simp
  have "(\<Sum>i<k. compute_lagrange_coefficients undef (replicate k 0) x k p ! i * y ! i)
      = (\<Sum>i<k. compute_lagrange_coefficients undef (replicate k 0) x k p ! i
                    * compute_shares (x ! i) a k)"
    by (rule sum.cong) (simp_all add: shares)
  then show ?thesis
    using weighted_sum_leading_coefficient [OF assms(1-3) _ assms(4), of "replicate k 0" undef a]
    by (simp add: reconstruct_sum [OF p])
qed

section \<open>The builder, the share loop and the choice of shares\<close>

lemma generate_coefficients_loop_length:
  "length (fst (fold (\<lambda>i (coefficients, st).
                    let (r, st) = mpz_urandomm st prime in (coefficients[i := r], st))
                 [0..<n] (cs, st))) = length cs"
  by (induction n) (simp_all add: case_prod_beta Let_def)

lemma generate_coefficients_length:
  "length (fst (generate_coefficients coefficients prime change secret st)) = length coefficients"
  using generate_coefficients_loop_length [of prime "change - 1" coefficients st]
  by (simp add: generate_coefficients_def case_prod_beta Let_def)

lemma generate_coefficients_last:
  assumes "0 < change" and "change \<le> length coefficients"
  shows "fst (generate_coefficients coefficients prime change secret st) ! (change - 1) = secret"
  using assms generate_coefficients_loop_length [of prime "change - 1" coefficients st]
  by (simp add: generate_coefficients_def case_prod_beta Let_def)

lemma main_shares_nth:
  assumes "n \<le> length y"
  shows "length (main_shares x y a k n) = length y"
    and "i < length y \<Longrightarrow> main_shares x y a k n ! i =
           (if i < n then compute_shares (x ! i) a k else y ! i)"
  unfolding main_shares_def
  using fold_overwrite_upt [OF assms, where F = "\<lambda>i y. y[i := compute_shares (x ! i) a k]"
      and h = "\<lambda>i. compute_shares (x ! i) a k"]
  by simp_all

lemma select_shares:
  assumes "length x = n" and "length y = n" and "\<forall>i\<in>set idx. i < n" and "i < length idx"
  shows "select idx (main_shares x y a k n) ! i = compute_shares (select idx x ! i) a k"
  using assms by (simp add: select_def main_shares_nth)

lemma reconstruct_selection:
  assumes "is_prime p" and "0 < k"
    and "length x = n" and "length y = n"
    and "length idx = k" and "\<forall>i\<in>set idx. i < n"
    and "distinct (map (\<lambda>i. x ! i mod p) idx)"
  shows "reconstruct undef (select idx x) (select idx (main_shares x y a k n)) k p
           = ((- 1) ^ (k - 1) * a ! (k - 1)) mod p"
proof (rule reconstruct_leading_coefficient [OF assms(1,2)])
  show "length (select idx x) = k" using assms(5) by (simp add: select_def)
  show "distinct (map (\<lambda>v. v mod p) (select idx x))"
    using assms(7) by (simp add: select_def comp_def)
  show "\<forall>i<k. select idx (main_shares x y a k n) ! i = compute_shares (select idx x ! i) a k"
    using select_shares [OF assms(3,4,6)] assms(5) by simp
qed

lemma compute_shares_at_zero:
  assumes "0 < change"
  shows "compute_shares 0 coefficients change = coefficients ! 0"
proof -
  have "(\<Sum>j<change. (0::int) ^ j * coefficients ! j)
          = (\<Sum>j<change. if j = 0 then coefficients ! j else 0)"
    by (rule sum.cong) (simp_all add: power_0_left)
  also have "\<dots> = coefficients ! 0" using assms by (simp add: sum.delta)
  finally show ?thesis by (simp add: compute_shares_sum)
qed

lemma compute_shares_nonneg:
  assumes "0 \<le> x" and "\<forall>c\<in>set coefficients. 0 \<le> c" and "change \<le> length coefficients"
  shows "0 \<le> compute_shares x coefficients change"
  unfolding compute_shares_sum
  using assms by (intro sum_nonneg mult_nonneg_nonneg zero_le_power) auto

lemma prod_residue_one:
  fixes p :: int
  assumes "finite A" and "\<forall>j\<in>A. f j mod p = 1 mod p"
  shows "(\<Prod>j\<in>A. f j) mod p = 1 mod p"
  using assms
proof (induction A rule: finite_induct)
  case empty
  show ?case by simp
next
  case (insert a A)
  then have "f a mod p = 1 mod p" "prod f A mod p = 1 mod p" by simp_all
  then have "(f a * prod f A) mod p = (1 * 1) mod p" by (rule mod_mult_cong)
  with insert show ?case by simp
qed

lemma generate_prime_is_prime: "is_prime (fst (generate_prime bit_strength st))"
  by (simp add: generate_prime_def mpz_urandomb_def mpz_nextprime_def Let_def
      nextprime_search_prime)

lemma generate_secret_range:
  assumes "0 < p"
  shows "0 \<le> fst (generate_secret p st)" and "fst (generate_secret p st) < p"
  using assms by (simp_all add: generate_secret_def mpz_urandomm_def)

section \<open>Concrete runs\<close>

lemma is_prime_17: "is_prime 17"
  by (simp add: is_prime_def)

lemma is_prime_2: "is_prime 2"
  by (simp add: is_prime_def)

lemma is_prime_3: "is_prime 3"
  by (simp add: is_prime_def)

lemma builder_run_17: "fst (generate_coefficients [0, 0, 0] 17 3 5 (3 ## 2 ## sconst 0)) = [3, 2, 5]"
  by (simp add: generate_coefficients_def mpz_urandomm_def upt_rec)

lemma builder_run_17_k2: "fst (generate_coefficients [0, 0] 17 2 5 (sconst 3)) = [3, 5]"
  by (simp add: generate_coefficients_def mpz_urandomm_def upt_rec)

lemma builder_run_3: "fst (generate_coefficients [0, 0] 3 2 1 (sconst 2)) = [2, 1]"
  by (simp add: generate_coefficients_def mpz_urandomm_def upt_rec)

lemma nextprime_13: "mpz_nextprime 13 = 17"
  by code_simp

lemma generate_prime_run: "fst (generate_prime 14 (sconst 12)) = 17"
  by (simp add: generate_prime_def mpz_urandomb_def mpz_setbit_def nextprime_13)

lemma nextprime_1: "mpz_nextprime 1 = 2"
  by code_simp

lemma generate_prime_run_2: "fst (generate_prime 14 (sconst 1)) = 2"
  by (simp add: generate_prime_def mpz_urandomb_def mpz_setbit_def set_bit_0 nextprime_1)

section \<open>The claims\<close>

lemma round_trip_up_to_sign:
  assumes "is_prime p" and "0 < k" and "k \<le> length coefficients"
    and "length x = n" and "length y = n"
    and "length idx = k" and "set idx \<subseteq> {..<n}"
    and "distinct (map (\<lambda>i. x ! i mod p) idx)"
  shows "reconstruct undef (select idx x)
           (select idx (main_shares x y (fst (generate_coefficients coefficients p k S st)) k n))
           k p = ((- 1) ^ (k - 1) * S) mod p"
proof -
  from assms(7) have idx: "\<forall>i\<in>set idx. i < n" by auto
  let ?a = "fst (generate_coefficients coefficients p k S st)"
  have "reconstruct undef (select idx x) (select idx (main_shares x y ?a k n)) k p
          = ((- 1) ^ (k - 1) * ?a ! (k - 1)) mod p"
    using assms(1,2,4-6) idx assms(8) by (rule reconstruct_selection)
  also have "?a ! (k - 1) = S" using assms(2,3) by (rule generate_coefficients_last)
  finally show ?thesis .
qed

lemma round_trip_even_threshold:
  assumes "is_prime p" and "even k" and "0 < k" and "k \<le> length coefficients"
    and "length x = n" and "length y = n"
    and "length idx = k" and "set idx \<subseteq> {..<n}"
    and "distinct (map (\<lambda>i. x ! i mod p) idx)"
  shows "reconstruct undef (select idx x)
           (select idx (main_shares x y (fst (generate_coefficients coefficients p k S st)) k n))
           k p = (- S) mod p"
proof -
  from assms(2,3) have "odd (k - 1)" by simp
  then show ?thesis
    using round_trip_up_to_sign [OF assms(1,3-9), of undef S st] by simp
qed

text \<open>
  C1. The claim is that for every prime \<open>p\<close>, every threshold \<open>k \<ge> 1\<close>, every secret \<open>S\<close> with
  \<open>0 \<le> S < p\<close>, every polynomial built by \<open>generate_coefficients\<close> from \<open>S\<close> and every \<open>k\<close> of
  the generated shares, \<open>compute_lagrange_coefficients\<close> followed by \<open>reconstruct_secret\<close>
  returns \<open>S\<close>. The program does not: run on \<open>p = 17\<close>, \<open>k = 2\<close>, \<open>S = 5\<close>, the polynomial \<open>3 + 5x\<close>
  that the builder returns, and the participants \<open>x = 1, 2\<close> with shares \<open>8, 13\<close>, it computes the
  coefficients \<open>1, 16\<close> and returns \<open>(8 + 208) mod 17 = 12 = 17 - 5\<close>. By
  \<open>round_trip_even_threshold\<close> every even threshold returns \<open>- S mod p\<close>.
\<close>

theorem round_trip_even_threshold_run:
  "fst (generate_coefficients [0, 0] 17 2 5 (sconst 3)) = [3, 5]
   \<and> main_shares [1, 2] [0, 0] [3, 5] 2 2 = [8, 13]
   \<and> compute_lagrange_coefficients gmp6_undef [0, 0] [1, 2] 2 17 = [1, 16]
   \<and> reconstruct gmp6_undef (select [0, 1] [1, 2])
        (select [0, 1] (main_shares [1, 2] [0, 0]
           (fst (generate_coefficients [0, 0] 17 2 5 (sconst 3))) 2 2))
        2 17 = 12"
  unfolding builder_run_17_k2 by code_simp

text \<open>
  C2. The claim is that the polynomial built by \<open>generate_coefficients\<close> evaluates to the secret
  at \<open>x = 0\<close> under the share evaluator's rule, and that the recombination of \<open>k\<close> shares is
  congruent to that value \<open>P(0)\<close>. The program does not: for the secret \<open>5\<close> and \<open>p = 17\<close>, \<open>k = 3\<close>
  the builder returns the coefficients \<open>3, 2, 5\<close>, \<open>compute_shares\<close> at \<open>x = 0\<close> returns \<open>3\<close>, and
  the recombination of the shares of \<open>x = 1, 2, 3\<close> returns \<open>5\<close>, which is not congruent to
  \<open>P(0) = 3\<close>.
\<close>

theorem constant_term_run:
  "fst (generate_coefficients [0, 0, 0] 17 3 5 (3 ## 2 ## sconst 0)) = [3, 2, 5]
   \<and> compute_shares 0 (fst (generate_coefficients [0, 0, 0] 17 3 5 (3 ## 2 ## sconst 0))) 3 = 3
   \<and> compute_shares 0 (fst (generate_coefficients [0, 0, 0] 17 3 5 (3 ## 2 ## sconst 0))) 3 \<noteq> 5
   \<and> reconstruct gmp6_undef [1, 2, 3] (main_shares [1, 2, 3] [0, 0, 0] [3, 2, 5] 3 3) 3 17 = 5"
  unfolding builder_run_17 by code_simp

text \<open>
  C3 (amended). For every prime \<open>p\<close>, every \<open>k \<ge> 1\<close> and every sequence of exactly \<open>k\<close> x-values
  that are pairwise distinct modulo \<open>p\<close>, \<open>compute_lagrange_coefficients\<close> returns for each
  index \<open>i\<close> the integer product over \<open>j \<noteq> i\<close> of the modular inverses of \<open>x\<^sub>j - x\<^sub>i\<close>. Each
  factor lies in \<open>[0, p)\<close> and inverts \<open>x\<^sub>j - x\<^sub>i\<close> modulo \<open>p\<close>; the product is not reduced, so
  \<open>alpha\<^sub>i\<close> is a non-negative integer that inverts the product of the differences modulo \<open>p\<close>
  but need not lie below \<open>p\<close>.
\<close>

theorem lagrange_coefficient_value:
  assumes "is_prime p" and "0 < k" and "length x = k" and "k \<le> length alphas"
    and "distinct (map (\<lambda>v. v mod p) x)" and "i < k"
    and "alpha = compute_lagrange_coefficients undef alphas x k p ! i"
    and "r = (\<lambda>j. snd (mpz_invert undef (x ! j - x ! i) p))"
  shows "alpha = (\<Prod>j\<in>{..<k} - {i}. r j)
       \<and> list_all (\<lambda>j. j = i \<or> (0 \<le> r j \<and> r j < p \<and> ((x ! j - x ! i) * r j) mod p = 1)) [0..<k]
       \<and> 0 \<le> alpha
       \<and> (alpha * (\<Prod>j\<in>{..<k} - {i}. x ! j - x ! i)) mod p = 1"
proof -
  have p: "1 < p" using assms(1) by (rule is_prime_gt_1)
  have formula: "alpha = (\<Prod>j\<in>{..<k} - {i}. r j)"
    unfolding assms(7,8) using assms(4,6) by (simp add: compute_lagrange_coefficients_nth)
  have inv: "0 \<le> r j \<and> r j < p \<and> ((x ! j - x ! i) * r j) mod p = 1" if "j < k" "j \<noteq> i" for j
  proof -
    have "\<not> p dvd x ! j - x ! i"
      using distinct_residues [OF assms(5), of i j] that assms(3,6) by simp
    then show ?thesis unfolding assms(8) using mpz_invert_prime [OF assms(1)] by blast
  qed
  then have each: "list_all (\<lambda>j. j = i \<or> (0 \<le> r j \<and> r j < p \<and> ((x ! j - x ! i) * r j) mod p = 1)) [0..<k]"
    by (auto simp: list_all_iff)
  have nonneg: "0 \<le> alpha"
    unfolding formula using inv by (intro prod_nonneg) simp
  have "alpha * (\<Prod>j\<in>{..<k} - {i}. x ! j - x ! i) = (\<Prod>j\<in>{..<k} - {i}. (x ! j - x ! i) * r j)"
    unfolding formula by (simp add: prod.distrib mult.commute)
  moreover have "(\<Prod>j\<in>{..<k} - {i}. (x ! j - x ! i) * r j) mod p = 1 mod p"
    using inv p by (intro prod_residue_one) simp_all
  ultimately have "(alpha * (\<Prod>j\<in>{..<k} - {i}. x ! j - x ! i)) mod p = 1" using p by simp
  with formula each nonneg show ?thesis by blast
qed

theorem lagrange_coefficient_value_witness:
  "is_prime 17 \<and> (0::nat) < 3 \<and> length [1, 2, 3 :: int] = 3 \<and> 3 \<le> length [0, 0, 0 :: int]
   \<and> distinct (map (\<lambda>v. v mod 17) [1, 2, 3 :: int]) \<and> (2::nat) < 3
   \<and> compute_lagrange_coefficients gmp6_undef [0, 0, 0] [1, 2, 3] 3 17 ! 2
        = (\<Prod>j\<in>{..<3} - {2}. snd (mpz_invert gmp6_undef ([1, 2, 3] ! j - [1, 2, 3] ! 2) 17))
   \<and> 0 \<le> compute_lagrange_coefficients gmp6_undef [0, 0, 0] [1, 2, 3] 3 17 ! 2
   \<and> (compute_lagrange_coefficients gmp6_undef [0, 0, 0] [1, 2, 3] 3 17 ! 2
        * (\<Prod>j\<in>{..<3} - {2}. [1, 2, 3] ! j - [1, 2, 3] ! 2)) mod 17 = 1"
proof -
  have h: "(0::nat) < 3" "length [1, 2, 3 :: int] = 3" "3 \<le> length [0, 0, 0 :: int]"
    "distinct (map (\<lambda>v. v mod 17) [1, 2, 3 :: int])" "(2::nat) < 3"
    by simp_all
  from lagrange_coefficient_value [OF is_prime_17 h refl refl, of gmp6_undef]
  show ?thesis using is_prime_17 h by blast
qed

text \<open>
  For \<open>p = 17\<close> and \<open>x = 1, 2, 3\<close> the third coefficient is \<open>8 * 16 = 128\<close>, outside \<open>[0, 17)\<close>.
\<close>

theorem lagrange_coefficient_range_counterexample:
  "compute_lagrange_coefficients gmp6_undef [0, 0, 0] [1, 2, 3] 3 17 ! 2 = 128
   \<and> \<not> compute_lagrange_coefficients gmp6_undef [0, 0, 0] [1, 2, 3] 3 17 ! 2 < 17"
  by code_simp

text \<open>
  C4 (amended). For every \<open>x\<close> and every coefficient sequence \<open>a[0..k-1]\<close>, the share value
  returned by \<open>compute_shares\<close> is the integer \<open>\<Sum> a[j] * x\<^sup>j\<close> for \<open>j\<close> from \<open>0\<close> to \<open>k - 1\<close>,
  not reduced: the function is not given the prime. For any modulus \<open>p\<close> its residue is the
  value of the polynomial computed on the residues of \<open>x\<close> and of the coefficients.
\<close>

theorem compute_shares_unreduced:
  assumes "change \<le> length coefficients"
  shows "compute_shares x coefficients change = (\<Sum>j<change. coefficients ! j * x ^ j)
       \<and> compute_shares x coefficients change mod p
           = (\<Sum>j<change. (coefficients ! j mod p) * (x mod p) ^ j) mod p"
proof -
  have formula: "compute_shares x coefficients change = (\<Sum>j<change. coefficients ! j * x ^ j)"
    by (simp add: compute_shares_sum mult.commute)
  have pointwise: "(c * x ^ j) mod p = ((c mod p) * (x mod p) ^ j) mod p" for c j
  proof -
    have "((c mod p) * (x mod p) ^ j) mod p = ((c mod p) * ((x mod p) ^ j mod p)) mod p"
      by (simp only: mod_mult_right_eq)
    also have "\<dots> = ((c mod p) * (x ^ j mod p)) mod p"
      by (simp only: power_mod)
    also have "\<dots> = (c * x ^ j) mod p"
      by (simp only: mod_mult_eq)
    finally show ?thesis by simp
  qed
  have "(\<Sum>j<change. coefficients ! j * x ^ j) mod p
          = (\<Sum>j<change. (coefficients ! j * x ^ j) mod p) mod p"
    by (simp add: mod_sum_eq)
  also have "\<dots> = (\<Sum>j<change. ((coefficients ! j mod p) * (x mod p) ^ j) mod p) mod p"
    by (simp only: pointwise)
  also have "\<dots> = (\<Sum>j<change. (coefficients ! j mod p) * (x mod p) ^ j) mod p"
    by (simp add: mod_sum_eq)
  finally show ?thesis using formula by simp
qed

theorem compute_shares_unreduced_witness:
  "3 \<le> length [3, 2, 5 :: int]
   \<and> compute_shares 2 [3, 2, 5] 3 = (\<Sum>j<3. [3, 2, 5] ! j * 2 ^ j)
   \<and> compute_shares 2 [3, 2, 5] 3 mod 17 = (\<Sum>j<3. ([3, 2, 5] ! j mod 17) * (2 mod 17) ^ j) mod 17"
proof -
  have h: "3 \<le> length [3, 2, 5 :: int]" by simp
  from compute_shares_unreduced [OF h, of 2 17] show ?thesis using h by blast
qed

text \<open>
  For \<open>x = 2\<close>, coefficients \<open>3, 2, 5\<close> and \<open>p = 17\<close> the share is \<open>27\<close>, while the sum reduced
  modulo \<open>17\<close> is \<open>10\<close>.
\<close>

theorem compute_shares_reduction_counterexample:
  "compute_shares 2 [3, 2, 5] 3 = 27
   \<and> (\<Sum>j<3. [3, 2, 5] ! j * 2 ^ j) mod 17 = (10::int)
   \<and> compute_shares 2 [3, 2, 5] 3 \<noteq> (\<Sum>j<3. [3, 2, 5] ! j * 2 ^ j) mod 17"
  by code_simp

text \<open>
  C5 (amended). With \<open>p = 17\<close>, \<open>k = 3\<close>, coefficients \<open>3, 2, 5\<close> (low degree to high degree,
  the secret \<open>5\<close> last) and participants \<open>x = 1, 2, 3, 4\<close>, the share evaluator returns
  \<open>10, 27, 54, 91\<close>, whose residues modulo \<open>17\<close> are \<open>10, 10, 3, 6\<close>; reconstruction from the
  shares \<open>(1, 10), (2, 27), (3, 54)\<close>, and likewise from their residues
  \<open>(1, 10), (2, 10), (3, 3)\<close>, returns \<open>5\<close>.
\<close>

theorem concrete_scenario:
  "main_shares [1, 2, 3, 4] [0, 0, 0, 0] [3, 2, 5] 3 4 = [10, 27, 54, 91]
   \<and> map (\<lambda>y. y mod 17) [10, 27, 54, 91 :: int] = [10, 10, 3, 6]
   \<and> reconstruct undef [1, 2, 3] [10, 27, 54] 3 17 = 5
   \<and> reconstruct undef [1, 2, 3] [10, 10, 3] 3 17 = 5"
  by code_simp

text \<open>
  The shares are not \<open>10, 10, 5, 6\<close>: the third one is \<open>54\<close>, with residue \<open>3\<close>. Reconstruction
  from \<open>(1, 10), (2, 10), (3, 5)\<close> returns \<open>6\<close>.
\<close>

theorem concrete_scenario_counterexample:
  "main_shares [1, 2, 3, 4] [0, 0, 0, 0] [3, 2, 5] 3 4 \<noteq> [10, 10, 5, 6]
   \<and> main_shares [1, 2, 3, 4] [0, 0, 0, 0] [3, 2, 5] 3 4 ! 2 mod 17 = 3
   \<and> reconstruct gmp6_undef [1, 2, 3] [10, 10, 5] 3 17 = 6"
  by code_simp

text \<open>
  C6 (amended). For every prime \<open>p\<close> and every sequence of \<open>k\<close> x-values in which two positions
  hold the same x-coordinate, \<open>mpz_invert\<close> reports the failure by returning \<open>0\<close>, the
  reconstruction path discards that status and signals no error: it returns a number, and
  that number lies in \<open>[0, p)\<close>.
\<close>

theorem duplicate_x_returns_number:
  assumes "is_prime p" and "i < k" and "j < k" and "i \<noteq> j" and "k \<le> length x"
    and "x ! i = x ! j"
  shows "fst (mpz_invert undef (x ! j - x ! i) p) = 0
       \<and> reconstruction_path undef x y k p = Inr (reconstruct undef x y k p)
       \<and> 0 \<le> reconstruct undef x y k p \<and> reconstruct undef x y k p < p"
proof -
  have p: "1 < p" using assms(1) by (rule is_prime_gt_1)
  have "mpz_invert undef (x ! j - x ! i) p = (0, undef (x ! j - x ! i) p)"
    using p by (rule mpz_invert_none) (simp add: assms(6))
  moreover have "0 \<le> reconstruct undef x y k p" "reconstruct undef x y k p < p"
    using p by (simp_all add: reconstruct_def reconstruct_secret_sum Let_def)
  ultimately show ?thesis by (simp add: reconstruction_path_def)
qed

theorem duplicate_x_returns_number_witness:
  "is_prime 17 \<and> (0::nat) < 3 \<and> (1::nat) < 3 \<and> (0::nat) \<noteq> 1 \<and> 3 \<le> length [1, 1, 2 :: int]
   \<and> [1, 1, 2 :: int] ! 0 = [1, 1, 2] ! 1
   \<and> fst (mpz_invert gmp6_undef ([1, 1, 2] ! 1 - [1, 1, 2] ! 0) 17) = 0
   \<and> reconstruction_path gmp6_undef [1, 1, 2] [10, 10, 27] 3 17
        = Inr (reconstruct gmp6_undef [1, 1, 2] [10, 10, 27] 3 17)
   \<and> 0 \<le> reconstruct gmp6_undef [1, 1, 2] [10, 10, 27] 3 17
   \<and> reconstruct gmp6_undef [1, 1, 2] [10, 10, 27] 3 17 < 17"
proof -
  have h: "(0::nat) < 3" "(1::nat) < 3" "(0::nat) \<noteq> 1" "3 \<le> length [1, 1, 2 :: int]"
    "[1, 1, 2 :: int] ! 0 = [1, 1, 2] ! 1"
    by simp_all
  from duplicate_x_returns_number [OF is_prime_17 h, of gmp6_undef "[10, 10, 27]"]
  show ?thesis using is_prime_17 h by blast
qed

text \<open>
  For \<open>p = 17\<close> and the x-values \<open>1, 1, 2\<close> the inversion of \<open>1 - 1\<close> fails, the coefficients
  become \<open>0, 0, 256\<close> (with GMP 6 leaving the operand in place), and the path returns \<open>10\<close>.
\<close>

theorem duplicate_x_counterexample:
  "fst (mpz_invert gmp6_undef ([1, 1, 2] ! 1 - [1, 1, 2] ! 0) 17) = 0
   \<and> compute_lagrange_coefficients gmp6_undef [0, 0, 0] [1, 1, 2] 3 17 = [0, 0, 256]
   \<and> reconstruction_path gmp6_undef [1, 1, 2] [10, 10, 27] 3 17 = Inr 10"
  by code_simp

text \<open>
  C7 (amended). Every share value \<open>y\<close> produced by \<open>compute_shares\<close> from a non-negative \<open>x\<close>
  and non-negative coefficients satisfies \<open>0 \<le> y\<close>, and its residue satisfies
  \<open>0 \<le> y mod p < p\<close>; the prime \<open>p\<close> returned by \<open>generate_prime\<close> is a prime and satisfies
  \<open>0 \<le> p\<close>; every secret produced by \<open>generate_secret\<close> satisfies \<open>0 \<le> secret < p\<close>.
\<close>

theorem range_invariants:
  assumes "0 \<le> x" and "list_all (\<lambda>c. 0 \<le> c) coefficients" and "change \<le> length coefficients"
    and "p = fst (generate_prime bit_strength st)"
    and "secret = fst (generate_secret p st')"
    and "y = compute_shares x coefficients change"
  shows "0 \<le> y \<and> 0 \<le> y mod p \<and> y mod p < p \<and> is_prime p \<and> 0 \<le> p \<and> 0 \<le> secret \<and> secret < p"
proof -
  have prime: "is_prime p" unfolding assms(4) by (rule generate_prime_is_prime)
  then have p: "0 < p" using is_prime_gt_1 [of p] by simp
  have "0 \<le> y"
    unfolding assms(6) using assms(1,2,3) by (intro compute_shares_nonneg) (simp_all add: list_all_iff)
  moreover have "0 \<le> secret" "secret < p"
    unfolding assms(5) using p by (rule generate_secret_range)+
  ultimately show ?thesis using prime p by simp
qed

theorem range_invariants_witness:
  "(0::int) \<le> 2 \<and> list_all (\<lambda>c. 0 \<le> c) [3, 2, 5 :: int] \<and> 3 \<le> length [3, 2, 5 :: int]
   \<and> 17 = fst (generate_prime 14 (sconst 12))
   \<and> 5 = fst (generate_secret 17 (sconst 5))
   \<and> 27 = compute_shares 2 [3, 2, 5] 3
   \<and> (0::int) \<le> 27 \<and> (0::int) \<le> 27 mod 17 \<and> (27::int) mod 17 < 17 \<and> is_prime 17
   \<and> (0::int) \<le> 17 \<and> (0::int) \<le> 5 \<and> (5::int) < 17"
proof -
  have h: "(0::int) \<le> 2" "list_all (\<lambda>c. 0 \<le> c) [3, 2, 5 :: int]" "3 \<le> length [3, 2, 5 :: int]"
    by simp_all
  have s: "5 = fst (generate_secret 17 (sconst 5))"
    by (simp add: generate_secret_def mpz_urandomm_def)
  have y: "27 = compute_shares 2 [3, 2, 5] 3" by code_simp
  from range_invariants [OF h generate_prime_run [symmetric] s y]
  show ?thesis using h generate_prime_run [symmetric] s y by blast
qed

text \<open>
  \<open>generate_prime\<close> with 14 bits and a generator whose raw draw is \<open>12\<close> returns \<open>17\<close>; the share
  of \<open>x = 2\<close> on the coefficients \<open>3, 2, 5\<close> is \<open>27\<close>, which is not below \<open>17\<close>.
\<close>

theorem share_range_counterexample:
  "fst (generate_prime 14 (sconst 12)) = 17
   \<and> compute_shares 2 [3, 2, 5] 3 = 27
   \<and> \<not> compute_shares 2 [3, 2, 5] 3 < fst (generate_prime 14 (sconst 12))"
  unfolding generate_prime_run by code_simp

text \<open>
  C8 (amended). For every polynomial (any coefficient array, in particular one built from a
  secret), every threshold \<open>k \<ge> 1\<close> and every two choices of exactly \<open>k\<close> shares drawn from the
  same generated share set, each with x-coordinates pairwise distinct modulo the prime \<open>p\<close>,
  the reconstruction pipeline returns the identical value on both.
\<close>

theorem subset_invariance:
  assumes "is_prime p" and "0 < k" and "length x = n" and "length y = n"
    and "length idx1 = k" and "set idx1 \<subseteq> {..<n}"
    and "distinct (map (\<lambda>i. x ! i mod p) idx1)"
    and "length idx2 = k" and "set idx2 \<subseteq> {..<n}"
    and "distinct (map (\<lambda>i. x ! i mod p) idx2)"
  shows "reconstruct undef (select idx1 x) (select idx1 (main_shares x y a k n)) k p
       = reconstruct undef (select idx2 x) (select idx2 (main_shares x y a k n)) k p"
proof -
  from assms(6,9) have idx: "\<forall>i\<in>set idx1. i < n" "\<forall>i\<in>set idx2. i < n" by auto
  have "reconstruct undef (select idx1 x) (select idx1 (main_shares x y a k n)) k p
          = ((- 1) ^ (k - 1) * a ! (k - 1)) mod p"
    using assms(1-5) idx(1) assms(7) by (rule reconstruct_selection)
  moreover have "reconstruct undef (select idx2 x) (select idx2 (main_shares x y a k n)) k p
          = ((- 1) ^ (k - 1) * a ! (k - 1)) mod p"
    using assms(1-4,8) idx(2) assms(10) by (rule reconstruct_selection)
  ultimately show ?thesis by simp
qed

theorem subset_invariance_witness:
  "is_prime 17 \<and> (0::nat) < 3 \<and> length [1, 2, 3, 4 :: int] = 4 \<and> length [0, 0, 0, 0 :: int] = 4
   \<and> length [0, 1, 2 :: nat] = 3 \<and> set [0, 1, 2 :: nat] \<subseteq> {..<4}
   \<and> distinct (map (\<lambda>i. [1, 2, 3, 4] ! i mod (17::int)) [0, 1, 2])
   \<and> length [3, 1, 0 :: nat] = 3 \<and> set [3, 1, 0 :: nat] \<subseteq> {..<4}
   \<and> distinct (map (\<lambda>i. [1, 2, 3, 4] ! i mod (17::int)) [3, 1, 0])
   \<and> reconstruct gmp6_undef (select [0, 1, 2] [1, 2, 3, 4])
        (select [0, 1, 2] (main_shares [1, 2, 3, 4] [0, 0, 0, 0] [3, 2, 5] 3 4)) 3 17
      = reconstruct gmp6_undef (select [3, 1, 0] [1, 2, 3, 4])
        (select [3, 1, 0] (main_shares [1, 2, 3, 4] [0, 0, 0, 0] [3, 2, 5] 3 4)) 3 17"
proof -
  have h: "(0::nat) < 3" "length [1, 2, 3, 4 :: int] = 4" "length [0, 0, 0, 0 :: int] = 4"
    "length [0, 1, 2 :: nat] = 3" "set [0, 1, 2 :: nat] \<subseteq> {..<4}"
    "distinct (map (\<lambda>i. [1, 2, 3, 4] ! i mod (17::int)) [0, 1, 2])"
    "length [3, 1, 0 :: nat] = 3" "set [3, 1, 0 :: nat] \<subseteq> {..<4}"
    "distinct (map (\<lambda>i. [1, 2, 3, 4] ! i mod (17::int)) [3, 1, 0])"
    by simp_all
  from subset_invariance [OF is_prime_17 h, of gmp6_undef "[3, 2, 5]"]
  show ?thesis using is_prime_17 h by blast
qed

text \<open>
  With \<open>p = 3\<close>, \<open>k = 2\<close>, the polynomial \<open>2 + x\<close> built for the secret \<open>1\<close> and the distinct
  non-zero x-coordinates \<open>1, 2, 4\<close>, the shares are \<open>3, 4, 6\<close>. The subset \<open>{1, 2}\<close> reconstructs
  to \<open>2\<close> and the subset \<open>{1, 4}\<close>, whose x-coordinates agree modulo \<open>3\<close>, to \<open>0\<close>; both of its
  shares are multiples of \<open>3\<close>, so this result does not depend on what the failed \<open>mpz_invert\<close>
  leaves behind.
\<close>

theorem subset_invariance_counterexample:
  "is_prime 3 \<and> distinct [1, 2, 4 :: int]
   \<and> reconstruct gmp6_undef (select [0, 1] [1, 2, 4])
        (select [0, 1] (main_shares [1, 2, 4] [0, 0, 0]
           (fst (generate_coefficients [0, 0] 3 2 1 (sconst 2))) 2 3)) 2 3 = 2
   \<and> reconstruct gmp6_undef (select [0, 2] [1, 2, 4])
        (select [0, 2] (main_shares [1, 2, 4] [0, 0, 0]
           (fst (generate_coefficients [0, 0] 3 2 1 (sconst 2))) 2 3)) 2 3 = 0"
  unfolding builder_run_3 by code_simp

text \<open>
  C9. For every position \<open>i\<close> that the batch loop of \<^verbatim>\<open>src/unnamed/part_000\<close> computes
  (\<open>i < k\<close>) and every coefficient sequence of length at least \<open>k\<close>, the share value it stores for
  \<open>x[i]\<close> equals the share value that the per-participant \<open>compute_shares\<close> of
  \<^verbatim>\<open>src/main.cpp\<close> computes for that same x.
\<close>

theorem batch_agrees_with_single:
  assumes "i < k" and "k \<le> length x" and "k \<le> length y" and "k \<le> length coefficients"
  shows "compute_shares_batch x y coefficients k ! i = compute_shares (x ! i) coefficients k"
  using assms by (simp add: compute_shares_batch_nth)

theorem batch_agrees_with_single_witness:
  "(1::nat) < 3 \<and> 3 \<le> length [2, 4, 6, 8 :: int] \<and> 3 \<le> length [0, 0, 0, 0 :: int]
   \<and> 3 \<le> length [3, 2, 5 :: int]
   \<and> compute_shares_batch [2, 4, 6, 8] [0, 0, 0, 0] [3, 2, 5] 3 ! 1
        = compute_shares ([2, 4, 6, 8] ! 1) [3, 2, 5] 3"
proof -
  have h: "(1::nat) < 3" "3 \<le> length [2, 4, 6, 8 :: int]" "3 \<le> length [0, 0, 0, 0 :: int]"
    "3 \<le> length [3, 2, 5 :: int]"
    by simp_all
  from batch_agrees_with_single [OF h] show ?thesis using h by blast
qed

text \<open>
  C10. The batch \<open>compute_shares\<close> of \<^verbatim>\<open>src/unnamed/part_000\<close>, called with \<open>n\<close> participant
  x-values, a threshold \<open>k\<close> with \<open>1 \<le> k \<le> n\<close> and at least \<open>k\<close> coefficients, writes positions
  \<open>0\<close> to \<open>k - 1\<close> only: for every index \<open>i\<close> with \<open>k \<le> i < n\<close> the \<open>i\<close>-th output entry is left
  unchanged, and the output keeps its \<open>n\<close> entries.
\<close>

theorem batch_leaves_tail_unwritten:
  assumes "0 < k" and "k \<le> n" and "k \<le> length coefficients"
    and "length x = n" and "length y = n" and "k \<le> i" and "i < n"
  shows "compute_shares_batch x y coefficients k ! i = y ! i
       \<and> length (compute_shares_batch x y coefficients k) = n"
  using assms by (simp add: compute_shares_batch_nth)

theorem batch_leaves_tail_unwritten_witness:
  "(0::nat) < 3 \<and> (3::nat) \<le> 4 \<and> 3 \<le> length [3, 2, 5 :: int]
   \<and> length [2, 4, 6, 8 :: int] = 4 \<and> length [7, 7, 7, 7 :: int] = 4
   \<and> (3::nat) \<le> 3 \<and> (3::nat) < 4
   \<and> compute_shares_batch [2, 4, 6, 8] [7, 7, 7, 7] [3, 2, 5] 3 ! 3 = [7, 7, 7, 7] ! 3
   \<and> length (compute_shares_batch [2, 4, 6, 8] [7, 7, 7, 7] [3, 2, 5] 3) = 4"
proof -
  have h: "(0::nat) < 3" "(3::nat) \<le> 4" "3 \<le> length [3, 2, 5 :: int]"
    "length [2, 4, 6, 8 :: int] = 4" "length [7, 7, 7, 7 :: int] = 4"
    "(3::nat) \<le> 3" "(3::nat) < 4"
    by simp_all
  from batch_leaves_tail_unwritten [OF h] show ?thesis using h by blast
qed

end
